theory Spec2Isabelle
  imports Main
begin

section \<open>Colours and the palette state (coloredlogcat.py, lines 48 and 78--94)\<close>

text \<open>
  Line 48 binds the eight names to \<open>range(8)\<close>; \<open>color_code\<close> gives the integer
  behind each name, which is what \<open>"%d"\<close> prints.
\<close>

datatype color = BLACK | RED | GREEN | YELLOW | BLUE | MAGENTA | CYAN | WHITE

fun color_code :: "color \<Rightarrow> nat" where
  "color_code BLACK = 0"
| "color_code RED = 1"
| "color_code GREEN = 2"
| "color_code YELLOW = 3"
| "color_code BLUE = 4"
| "color_code MAGENTA = 5"
| "color_code CYAN = 6"
| "color_code WHITE = 7"

text \<open>The exceptions the modelled statements can raise.\<close>

datatype error = IndexError | KeyError | ValueError

text \<open>
  The two module-level globals that \<open>allocate_color\<close> mutates: the list \<open>LAST_USED\<close>
  and the dictionary \<open>KNOWN_TAGS\<close>.
\<close>

record palette =
  LAST_USED :: "color list"
  KNOWN_TAGS :: "string \<rightharpoonup> color"

definition init_palette :: palette where
  "init_palette =
     \<lparr>LAST_USED = [RED, GREEN, YELLOW, BLUE, MAGENTA, CYAN, WHITE],
      KNOWN_TAGS = [''dalvikvm'' \<mapsto> BLUE, ''Process'' \<mapsto> BLUE,
                    ''ActivityManager'' \<mapsto> CYAN, ''ActivityThread'' \<mapsto> CYAN]\<rparr>"

text \<open>
  \<open>allocate_color\<close>, lines 86--94. \<open>LAST_USED[0]\<close> raises IndexError on an empty list,
  \<open>KNOWN_TAGS[tag]\<close> raises KeyError on a missing key, and \<open>list.remove\<close> removes the
  first occurrence and raises ValueError when there is none. The result is the returned
  colour together with the updated globals.
\<close>

definition allocate_color :: "string \<Rightarrow> palette \<Rightarrow> error + (color \<times> palette)" where
  "allocate_color tag p =
     (case (if KNOWN_TAGS p tag = None
            then (case LAST_USED p of
                    [] \<Rightarrow> Inl IndexError
                  | c # _ \<Rightarrow> Inr (p\<lparr>KNOWN_TAGS := (KNOWN_TAGS p)(tag \<mapsto> c)\<rparr>))
            else Inr p) of
        Inl e \<Rightarrow> Inl e
      | Inr p1 \<Rightarrow>
          (case KNOWN_TAGS p1 tag of
             None \<Rightarrow> Inl KeyError
           | Some color \<Rightarrow>
               if color \<in> set (LAST_USED p1)
               then Inr (color, p1\<lparr>LAST_USED := remove1 color (LAST_USED p1) @ [color]\<rparr>)
               else Inl ValueError))"

text \<open>
  A run of the program calls \<open>allocate_color\<close> once per matched line (line 181).
  \<open>allocate_all\<close> is that sequence of calls for a list of tags, collecting the
  returned colours; an exception ends the sequence.
\<close>

fun allocate_all :: "string list \<Rightarrow> palette \<Rightarrow> error + (color list \<times> palette)" where
  "allocate_all [] p = Inr ([], p)"
| "allocate_all (tag # tags) p =
     (case allocate_color tag p of
        Inl e \<Rightarrow> Inl e
      | Inr (c, p') \<Rightarrow>
          (case allocate_all tags p' of
             Inl e \<Rightarrow> Inl e
           | Inr (cs, p'') \<Rightarrow> Inr (c # cs, p'')))"

text \<open>
  The palette states a run can be in: the initial globals, and whatever a returning call
  of \<open>allocate_color\<close> leaves behind.
\<close>

inductive reachable :: "palette \<Rightarrow> bool" where
  reachable_init: "reachable init_palette"
| reachable_step: "reachable p \<Longrightarrow> allocate_color tag p = Inr (c, p') \<Longrightarrow> reachable p'"

definition ring_colors :: "color list" where
  "ring_colors = [RED, GREEN, YELLOW, BLUE, MAGENTA, CYAN, WHITE]"

text \<open>
  The two invariants of the globals: the ring holds the seven colours once each, and
  every colour recorded for a tag is in the ring.
\<close>

definition ring_inv :: "palette \<Rightarrow> bool" where
  "ring_inv p \<longleftrightarrow> distinct (LAST_USED p) \<and> set (LAST_USED p) = set ring_colors"

definition known_inv :: "palette \<Rightarrow> bool" where
  "known_inv p \<longleftrightarrow> (\<forall>t c. KNOWN_TAGS p t = Some c \<longrightarrow> c \<in> set (LAST_USED p))"

section \<open>Strings, escape codes and line wrapping (lines 50--75)\<close>

text \<open>
  The string methods the script uses, on byte strings. \<open>ljust\<close> and \<open>rjust\<close> pad with
  spaces up to the width and leave a longer string alone; \<open>center\<close> follows CPython 2,
  which puts \<open>marg div 2\<close> spaces on the left plus one more when the margin and the
  width are both odd; \<open>strip\<close> removes the whitespace bytes at both ends; \<open>str\<close> prints
  an integer in decimal (as \<open>"%d"\<close> does); \<open>join\<close> is \<open>sep.join(xs)\<close>.
\<close>

abbreviation newline :: char where
  "newline \<equiv> CHR 0x0A"

abbreviation space :: char where
  "space \<equiv> CHR 0x20"

definition ljust :: "string \<Rightarrow> int \<Rightarrow> string" where
  "ljust s width = s @ replicate (nat (width - int (length s))) space"

definition rjust :: "string \<Rightarrow> int \<Rightarrow> string" where
  "rjust s width = replicate (nat (width - int (length s))) space @ s"

definition center :: "string \<Rightarrow> int \<Rightarrow> string" where
  "center s width =
     (let marg = width - int (length s) in
      if marg \<le> 0 then s
      else
        let left = marg div 2 + (if odd marg \<and> odd width then 1 else 0) in
        replicate (nat left) space @ s @ replicate (nat (marg - left)) space)"

definition whitespace :: "char \<Rightarrow> bool" where
  "whitespace c \<longleftrightarrow> c \<in> set [CHR 0x20, CHR 0x09, CHR 0x0A, CHR 0x0B, CHR 0x0C, CHR 0x0D]"

definition strip :: "string \<Rightarrow> string" where
  "strip s = rev (dropWhile whitespace (rev (dropWhile whitespace s)))"

fun digits :: "nat \<Rightarrow> string" where
  "digits n =
     (if n < 10 then [''0123456789'' ! n]
      else digits (n div 10) @ [''0123456789'' ! (n mod 10)])"

definition str :: "int \<Rightarrow> string" where
  "str i = (if i < 0 then CHR ''-'' # digits (nat (- i)) else digits (nat i))"

fun join :: "string \<Rightarrow> string list \<Rightarrow> string" where
  "join sep [] = []"
| "join sep [x] = x"
| "join sep (x # y # ys) = x @ sep @ join sep (y # ys)"

text \<open>
  Slices with integer bounds, \<open>xs[i:j]\<close>: a negative bound counts from the end, and both
  bounds are clamped to the list.
\<close>

definition clamp_index :: "nat \<Rightarrow> int \<Rightarrow> nat" where
  "clamp_index n i = (if i < 0 then nat (max 0 (int n + i)) else min n (nat i))"

definition py_slice :: "'a list \<Rightarrow> int \<Rightarrow> int \<Rightarrow> 'a list" where
  "py_slice xs i j =
     (let a = clamp_index (length xs) i; b = clamp_index (length xs) j
      in take (b - a) (drop a xs))"

text \<open>
  \<open>format\<close>, lines 50--62: the ANSI escape sequence for the given attributes. The
  arguments are \<open>fg\<close>, \<open>bg\<close>, \<open>bright\<close>, \<open>bold\<close>, \<open>dim\<close>, \<open>reset\<close> in the order of the
  signature; \<open>None\<close> is the default of \<open>fg\<close> and \<open>bg\<close>.
\<close>

definition format ::
    "color option \<Rightarrow> color option \<Rightarrow> bool \<Rightarrow> bool \<Rightarrow> bool \<Rightarrow> bool \<Rightarrow> string" where
  "format fg bg bright bold dim reset =
     (let codes =
        (if reset then [''0'']
         else
           (case fg of None \<Rightarrow> [] | Some c \<Rightarrow> [''3'' @ str (int (color_code c))]) @
           (case bg of
              None \<Rightarrow> []
            | Some c \<Rightarrow>
                if \<not> bright then [''4'' @ str (int (color_code c))]
                else [''10'' @ str (int (color_code c))]) @
           [if bold then ''1'' else if dim then ''2'' else ''22''])
      in CHR 0x1B # ''['' @ join '';'' codes @ ''m'')"

text \<open>
  \<open>indent_wrap\<close>, lines 65--75. The loop state is \<open>current\<close> and the contents of
  \<open>messagebuf\<close>; a loop that never leaves is the value \<open>None\<close>. \<open>" " * indent\<close> is the
  empty string for a negative \<open>indent\<close>.
\<close>

partial_function (option) indent_wrap_loop ::
    "string \<Rightarrow> int \<Rightarrow> int \<Rightarrow> int \<Rightarrow> string \<Rightarrow> string option" where
  "indent_wrap_loop message indent wrap_area current messagebuf =
     (if current < int (length message) then
        (let next = min (current + wrap_area) (int (length message));
             buf1 = messagebuf @ py_slice message current next;
             buf2 = (if next < int (length message)
                     then buf1 @ newline # replicate (nat indent) space
                     else buf1)
         in indent_wrap_loop message indent wrap_area next buf2)
      else Some messagebuf)"

declare indent_wrap_loop.simps [code]

definition indent_wrap :: "string \<Rightarrow> int \<Rightarrow> int \<Rightarrow> string option" where
  "indent_wrap message indent width = indent_wrap_loop message indent (width - indent) 0 []"


section \<open>Layout constants and the two line patterns (lines 97--118)\<close>

definition NUMBER_WIDTH :: int where "NUMBER_WIDTH = 6"
definition TAGTYPE_WIDTH :: int where "TAGTYPE_WIDTH = 3"
definition TAG_WIDTH :: int where "TAG_WIDTH = 25"
definition PROCESS_WIDTH :: int where "PROCESS_WIDTH = 8"
definition TIME_WIDTH :: int where "TIME_WIDTH = 21"

definition HEADER_SIZE :: int where
  "HEADER_SIZE = 1 + NUMBER_WIDTH + TAGTYPE_WIDTH + 1 + TAG_WIDTH + 1 + PROCESS_WIDTH + 1"

definition TAGTYPES :: "string \<rightharpoonup> string" where
  "TAGTYPES =
     [''V'' \<mapsto> format (Some WHITE) (Some BLACK) False False False False
                 @ center ''V'' TAGTYPE_WIDTH @ format None None False False False True @ '' '',
      ''D'' \<mapsto> format (Some BLACK) (Some BLUE) False False False False
                 @ center ''D'' TAGTYPE_WIDTH @ format None None False False False True @ '' '',
      ''I'' \<mapsto> format (Some BLACK) (Some GREEN) False False False False
                 @ center ''I'' TAGTYPE_WIDTH @ format None None False False False True @ '' '',
      ''W'' \<mapsto> format (Some BLACK) (Some YELLOW) False False False False
                 @ center ''W'' TAGTYPE_WIDTH @ format None None False False False True @ '' '',
      ''E'' \<mapsto> format (Some BLACK) (Some RED) False False False False
                 @ center ''E'' TAGTYPE_WIDTH @ format None None False False False True @ '' '']"

text \<open>
  The two regular expressions, as \<open>re.match\<close> decides them on a byte string; the result
  is \<open>match.groups()\<close>, or \<open>None\<close> when there is no match.

  \<open>retagDefault\<close> is \<^verbatim>\<open>^([A-Z])/([^\(]+)\(([^\)]+)\): (.*)$\<close>. Each group has
  one possible extent: the tag is a non-empty run without an opening bracket that is
  followed by one, so it ends at the first opening bracket; the owner likewise ends at
  the first closing bracket after it; the dot matches no newline and the dollar matches at
  the end of the string or before a newline that ends it, so the message is what follows
  the colon and the space, up to the end or to a final newline.

  \<open>retagTime\<close> is \<^verbatim>\<open>^([\-:\. 0-9]+) ([A-Z])/([^\(]+)\(([^\)]+)\): (.*)$\<close>. The first
  group is followed by a space and an upper-case letter; the space is in the class of the
  group and the letter is not, so the space is the last character of the longest prefix
  made of the class, and the group is that prefix without it.
\<close>

definition upper :: "char \<Rightarrow> bool" where
  "upper c \<longleftrightarrow> c \<in> set ''ABCDEFGHIJKLMNOPQRSTUVWXYZ''"

definition time_char :: "char \<Rightarrow> bool" where
  "time_char c \<longleftrightarrow> c \<in> set ''-:. 0123456789''"

definition retagDefault :: "string \<Rightarrow> string list option" where
  "retagDefault line =
     (case line of
        tagtype # slash # r1 \<Rightarrow>
          if upper tagtype \<and> slash = CHR ''/'' then
            (let tag = takeWhile (\<lambda>c. c \<noteq> CHR ''('') r1;
                 r2 = dropWhile (\<lambda>c. c \<noteq> CHR ''('') r1
             in if tag = [] then None
                else
                  (case r2 of
                     [] \<Rightarrow> None
                   | _ # r3 \<Rightarrow>
                       (let owner = takeWhile (\<lambda>c. c \<noteq> CHR '')'') r3;
                            r4 = dropWhile (\<lambda>c. c \<noteq> CHR '')'') r3
                        in if owner = [] then None
                           else
                             (case r4 of
                                _ # colon # sp # r5 \<Rightarrow>
                                  if colon = CHR '':'' \<and> sp = space then
                                    (let message = takeWhile (\<lambda>c. c \<noteq> newline) r5;
                                         r6 = dropWhile (\<lambda>c. c \<noteq> newline) r5
                                     in if r6 = [] \<or> r6 = [newline]
                                        then Some [[tagtype], tag, owner, message]
                                        else None)
                                  else None
                              | _ \<Rightarrow> None))))
          else None
      | _ \<Rightarrow> None)"

definition retagTime :: "string \<Rightarrow> string list option" where
  "retagTime line =
     (let run = takeWhile time_char line; rest = dropWhile time_char line
      in if 2 \<le> length run \<and> last run = space then
           (case retagDefault rest of
              None \<Rightarrow> None
            | Some groups \<Rightarrow> Some (butlast run # groups))
         else None)"

section \<open>The main loop (lines 121, 144--208)\<close>

text \<open>
  The state of the loop: the flag \<open>timeOutputted\<close>, the counter \<open>linenumber\<close>, the
  globals of the colour allocator, and everything written to standard output so far.
  The terminal width \<open>WIDTH\<close> (line 46) is a parameter. The table \<open>RULES\<close> (line 97) is
  empty, so the loop over it at lines 200--202 does nothing.
\<close>

record driver =
  timeOutputted :: bool
  linenumber :: int
  palette :: palette
  stdout :: string

text \<open>
  Line 121 clears the flag, line 135 sets it when standard input is a terminal, and
  line 144 starts the counter at 1.
\<close>

definition init_driver :: "bool \<Rightarrow> driver" where
  "init_driver isatty =
     \<lparr>timeOutputted = isatty, linenumber = 1, palette = init_palette, stdout = []\<rparr>"

text \<open>
  What one pass through the loop body ends with: back to \<open>readline\<close>, one of the three
  \<open>break\<close> statements (lines 150, 186 and 208), or an uncaught exception.
\<close>

datatype outcome =
    Reading
  | Break_interrupt
  | Break_tagtype
  | Break_eof
  | Raised error

text \<open>
  Lines 152--160: the pattern for the current mode, with the fallback that sets the flag.
  The result is the flag and the match.
\<close>

definition match_line :: "bool \<Rightarrow> string \<Rightarrow> bool \<times> string list option" where
  "match_line timeOut line =
     (if timeOut then (timeOut, retagTime line)
      else
        (case retagDefault line of
           Some groups \<Rightarrow> (timeOut, Some groups)
         | None \<Rightarrow>
             (case retagTime line of
                Some groups \<Rightarrow> (True, Some groups)
              | None \<Rightarrow> (timeOut, None))))"

text \<open>
  Lines 163--166: unpacking the groups into five or four names raises ValueError when the
  number of groups is another. In brief mode \<open>time\<close> stays unbound; it is not read.
\<close>

definition unpack :: "bool \<Rightarrow> string list \<Rightarrow> (string \<times> string \<times> string \<times> string \<times> string) option" where
  "unpack timeOut groups =
     (if timeOut then
        (case groups of
           [time, tagtype, tag, owner, message] \<Rightarrow> Some (time, tagtype, tag, owner, message)
         | _ \<Rightarrow> None)
      else
        (case groups of
           [tagtype, tag, owner, message] \<Rightarrow> Some ([], tagtype, tag, owner, message)
         | _ \<Rightarrow> None))"

text \<open>The pieces written to \<open>linebuf\<close>: lines 171, 175--177, 182--183, 190--191.\<close>

definition number_column :: "int \<Rightarrow> string" where
  "number_column n = '' '' @ ljust (str n) NUMBER_WIDTH"

definition owner_column :: "string \<Rightarrow> string" where
  "owner_column owner =
     (if PROCESS_WIDTH > 0
      then format (Some BLACK) (Some BLACK) True False False False
           @ center (strip owner) PROCESS_WIDTH
           @ format None None False False False True @ '' ''
      else [])"

definition tag_column :: "color \<Rightarrow> string \<Rightarrow> string" where
  "tag_column color tag =
     format (Some color) None False False False False
     @ rjust (drop (clamp_index (length tag) (- TAG_WIDTH)) tag) TAG_WIDTH
     @ '' '' @ format None None False False False True"

definition time_column :: "bool \<Rightarrow> string \<Rightarrow> string" where
  "time_column timeOut time =
     (if timeOut then ljust (''['' @ time @ ''] '') TIME_WIDTH else [])"

text \<open>Lines 194--196.\<close>

definition headerSize :: "bool \<Rightarrow> int" where
  "headerSize timeOut = (if timeOut then HEADER_SIZE + TIME_WIDTH else HEADER_SIZE)"

text \<open>
  Lines 207--208: \<open>print\<close> writes the line and a newline; an empty line then leaves the
  loop.
\<close>

definition print_line :: "string \<Rightarrow> driver \<Rightarrow> outcome \<times> driver" where
  "print_line line d =
     (if length line = 0 then Break_eof else Reading,
      d\<lparr>stdout := stdout d @ line @ [newline]\<rparr>)"

text \<open>
  Lines 163--205 for a matched line, then the \<open>print\<close>. The result is \<open>None\<close> when
  \<open>indent_wrap\<close> does not return. An exception ends the program; the state given with
  it is the one before the raising call.
\<close>

definition layout_line :: "int \<Rightarrow> driver \<Rightarrow> string list \<Rightarrow> (outcome \<times> driver) option" where
  "layout_line WIDTH d groups =
     (case unpack (timeOutputted d) groups of
        None \<Rightarrow> Some (Raised ValueError, d)
      | Some (time, tagtype, tag, owner, message) \<Rightarrow>
          (let linebuf1 = number_column (linenumber d);
               d1 = d\<lparr>linenumber := linenumber d + 1\<rparr>;
               linebuf2 = linebuf1 @ owner_column owner;
               tag1 = strip tag
           in case allocate_color tag1 (palette d1) of
                Inl e \<Rightarrow> Some (Raised e, d1)
              | Inr (color, p) \<Rightarrow>
                  (let d2 = d1\<lparr>palette := p\<rparr>;
                       linebuf3 = linebuf2 @ tag_column color tag1
                   in case TAGTYPES tagtype of
                        None \<Rightarrow> Some (Break_tagtype, d2)
                      | Some badge \<Rightarrow>
                          (let linebuf4 = linebuf3 @ badge
                                 @ time_column (timeOutputted d2) time
                           in case indent_wrap message (headerSize (timeOutputted d2)) WIDTH of
                                None \<Rightarrow> None
                              | Some wrapped \<Rightarrow> Some (print_line (linebuf4 @ wrapped) d2)))))"

text \<open>
  The same lines up to the call of \<open>indent_wrap\<close> at line 197, which always complete:
  either the loop is left before the call (an exception, or the \<open>break\<close> of line 186),
  or the call is reached with a state, the contents of \<open>linebuf\<close>, the message and the
  header size.
\<close>

datatype progress =
    Left outcome driver
  | At_wrap driver string string int

fun progress_state :: "progress \<Rightarrow> driver" where
  "progress_state (Left oc d) = d"
| "progress_state (At_wrap d linebuf message hs) = d"

definition layout_header :: "driver \<Rightarrow> string list \<Rightarrow> progress" where
  "layout_header d groups =
     (case unpack (timeOutputted d) groups of
        None \<Rightarrow> Left (Raised ValueError) d
      | Some (time, tagtype, tag, owner, message) \<Rightarrow>
          (let linebuf1 = number_column (linenumber d);
               d1 = d\<lparr>linenumber := linenumber d + 1\<rparr>;
               linebuf2 = linebuf1 @ owner_column owner;
               tag1 = strip tag
           in case allocate_color tag1 (palette d1) of
                Inl e \<Rightarrow> Left (Raised e) d1
              | Inr (color, p) \<Rightarrow>
                  (let d2 = d1\<lparr>palette := p\<rparr>;
                       linebuf3 = linebuf2 @ tag_column color tag1
                   in case TAGTYPES tagtype of
                        None \<Rightarrow> Left Break_tagtype d2
                      | Some badge \<Rightarrow>
                          At_wrap d2 (linebuf3 @ badge @ time_column (timeOutputted d2) time)
                            message (headerSize (timeOutputted d2)))))"

text \<open>One pass through the loop body for the line that \<open>readline\<close> returned.\<close>

definition process_line :: "int \<Rightarrow> driver \<Rightarrow> string \<Rightarrow> (outcome \<times> driver) option" where
  "process_line WIDTH d line =
     (case match_line (timeOutputted d) line of
        (timeOut, match) \<Rightarrow>
          (let d0 = d\<lparr>timeOutputted := timeOut\<rparr>
           in case match of
                None \<Rightarrow> Some (print_line line d0)
              | Some groups \<Rightarrow> layout_line WIDTH d0 groups))"

text \<open>
  The loop, over the results of the successive \<open>readline\<close> calls: a line (the empty
  string at the end of the input) or a KeyboardInterrupt. When the list is used up the
  loop is waiting in \<open>readline\<close>, which is the outcome \<open>Reading\<close>.
\<close>

datatype read = Line string | KeyboardInterrupt

fun main_loop :: "int \<Rightarrow> read list \<Rightarrow> driver \<Rightarrow> (outcome \<times> driver) option" where
  "main_loop WIDTH [] d = Some (Reading, d)"
| "main_loop WIDTH (KeyboardInterrupt # rs) d = Some (Break_interrupt, d)"
| "main_loop WIDTH (Line line # rs) d =
     (case process_line WIDTH d line of
        None \<Rightarrow> None
      | Some (oc, d') \<Rightarrow> if oc = Reading then main_loop WIDTH rs d' else Some (oc, d'))"


section \<open>The colour allocator\<close>

lemma allocate_color_known:
  "KNOWN_TAGS p tag = Some c \<Longrightarrow> c \<in> set (LAST_USED p) \<Longrightarrow>
   allocate_color tag p = Inr (c, p\<lparr>LAST_USED := remove1 c (LAST_USED p) @ [c]\<rparr>)"
  by (simp add: allocate_color_def dom_def)

lemma allocate_color_new:
  "KNOWN_TAGS p tag = None \<Longrightarrow> LAST_USED p = c # rest \<Longrightarrow>
   allocate_color tag p =
     Inr (c, p\<lparr>KNOWN_TAGS := (KNOWN_TAGS p)(tag \<mapsto> c), LAST_USED := rest @ [c]\<rparr>)"
  by (simp add: allocate_color_def dom_def)

lemma allocate_color_Inr:
  assumes "allocate_color tag p = Inr (c, p')"
  shows "c \<in> set (LAST_USED p) \<and> LAST_USED p' = remove1 c (LAST_USED p) @ [c] \<and>
         KNOWN_TAGS p' tag = Some c \<and>
         (\<forall>t. t \<noteq> tag \<longrightarrow> KNOWN_TAGS p' t = KNOWN_TAGS p t) \<and>
         (KNOWN_TAGS p tag \<noteq> None \<longrightarrow> KNOWN_TAGS p tag = Some c) \<and>
         (KNOWN_TAGS p tag = None \<longrightarrow> (\<exists>rest. LAST_USED p = c # rest))"
  using assms
  by (auto simp: allocate_color_def dom_def split: if_splits list.splits option.splits)

lemma ring_inv_touch:
  "ring_inv p \<Longrightarrow> c \<in> set (LAST_USED p) \<Longrightarrow> LAST_USED p' = remove1 c (LAST_USED p) @ [c] \<Longrightarrow> ring_inv p'"
  by (auto simp: ring_inv_def dest: notin_set_remove1 in_set_remove1)


lemma ring_colors_set:
  "set ring_colors = {RED, GREEN, YELLOW, BLUE, MAGENTA, CYAN, WHITE}"
  by (simp add: ring_colors_def)

lemma init_invs: "ring_inv init_palette \<and> known_inv init_palette"
  by (simp add: ring_inv_def known_inv_def init_palette_def ring_colors_def)

lemma allocate_color_invs:
  assumes "ring_inv p" "known_inv p" "allocate_color tag p = Inr (c, p')"
  shows "ring_inv p' \<and> known_inv p'"
proof -
  note f = allocate_color_Inr [OF assms(3)]
  have r: "ring_inv p'" using ring_inv_touch [OF assms(1)] f by blast
  have s: "set (LAST_USED p') = set (LAST_USED p)"
    using r assms(1) by (simp add: ring_inv_def)
  have "known_inv p'"
    unfolding known_inv_def
  proof (intro allI impI)
    fix t d assume h: "KNOWN_TAGS p' t = Some d"
    show "d \<in> set (LAST_USED p')"
    proof (cases "t = tag")
      case True
      then have "d = c" using f h by simp
      then show ?thesis using f s by simp
    next
      case False
      then have "KNOWN_TAGS p t = Some d" using f h by simp
      then show ?thesis using assms(2) s by (simp add: known_inv_def)
    qed
  qed
  with r show ?thesis by simp
qed

lemma reachable_invs: "reachable p \<Longrightarrow> ring_inv p \<and> known_inv p"
proof (induction rule: reachable.induct)
  case reachable_init
  show ?case by (rule init_invs)
next
  case (reachable_step p tag c p')
  then show ?case using allocate_color_invs by blast
qed

lemma allocate_color_total:
  assumes "ring_inv p" "known_inv p"
  shows "\<exists>c p'. allocate_color tag p = Inr (c, p')"
proof (cases "KNOWN_TAGS p tag")
  case None
  have "RED \<in> set (LAST_USED p)" using assms(1) by (simp add: ring_inv_def ring_colors_def)
  then have "LAST_USED p \<noteq> []" by (cases "LAST_USED p") simp_all
  then obtain c rest where "LAST_USED p = c # rest" by (cases "LAST_USED p") auto
  from allocate_color_new [OF None this] show ?thesis by blast
next
  case (Some c)
  then have "c \<in> set (LAST_USED p)" using assms(2) by (simp add: known_inv_def)
  from allocate_color_known [OF Some this] show ?thesis by blast
qed

lemma allocate_fresh:
  assumes "distinct ts" "set ts \<inter> dom (KNOWN_TAGS p) = {}" "LAST_USED p \<noteq> []"
  shows "\<exists>p'. allocate_all ts p =
           Inr (map (\<lambda>i. LAST_USED p ! (i mod length (LAST_USED p))) [0..<length ts], p')"
  using assms
proof (induction ts arbitrary: p)
  case Nil
  show ?case by simp
next
  case (Cons t ts)
  obtain c rest where L: "LAST_USED p = c # rest"
    using Cons.prems(3) by (cases "LAST_USED p") auto
  have n: "KNOWN_TAGS p t = None" using Cons.prems(2) by auto
  define p1 where "p1 = p\<lparr>KNOWN_TAGS := (KNOWN_TAGS p)(t \<mapsto> c), LAST_USED := rest @ [c]\<rparr>"
  have a: "allocate_color t p = Inr (c, p1)"
    unfolding p1_def by (rule allocate_color_new [OF n L])
  have r: "LAST_USED p1 = rotate1 (LAST_USED p)" by (simp add: p1_def L)
  have "distinct ts" "set ts \<inter> dom (KNOWN_TAGS p1) = {}" "LAST_USED p1 \<noteq> []"
    using Cons.prems by (auto simp: p1_def)
  from Cons.IH [OF this] obtain p' where
    b: "allocate_all ts p1 =
          Inr (map (\<lambda>i. LAST_USED p1 ! (i mod length (LAST_USED p1))) [0..<length ts], p')"
    by blast
  have e: "LAST_USED p1 ! (i mod length (LAST_USED p1)) =
           LAST_USED p ! (Suc i mod length (LAST_USED p))" for i
  proof -
    have "i mod length (LAST_USED p) < length (LAST_USED p)" using L by simp
    then show ?thesis by (simp add: r nth_rotate1 mod_Suc_eq)
  qed
  have "map (\<lambda>i. LAST_USED p ! (i mod length (LAST_USED p))) [0..<length (t # ts)] =
        c # map (\<lambda>i. LAST_USED p1 ! (i mod length (LAST_USED p1))) [0..<length ts]"
    by (simp add: map_upt_Suc e del: upt_Suc) (simp add: L)
  with a b show ?case by simp
qed

text \<open>
  Claim C1. Eight distinct tags, none of them among the seeded tags, are passed to
  \<open>allocate_color\<close> one after the other, starting from the initial globals. All eight
  calls return, and the colour returned for the eighth tag is the colour returned for the
  first.
\<close>

theorem lru_eighth_tag_reuses_first_color:
  assumes "length ts = 8" "distinct ts" "set ts \<inter> dom (KNOWN_TAGS init_palette) = {}"
  shows "\<exists>cs p'. allocate_all ts init_palette = Inr (cs, p') \<and> length cs = 8 \<and> cs ! 7 = cs ! 0"
proof -
  have "LAST_USED init_palette \<noteq> []" by (simp add: init_palette_def)
  from allocate_fresh [OF assms(2,3) this] obtain p' where
    a: "allocate_all ts init_palette =
         Inr (map (\<lambda>i. LAST_USED init_palette ! (i mod length (LAST_USED init_palette)))
               [0..<length ts], p')"
    by blast
  have l: "length (LAST_USED init_palette) = 7" by (simp add: init_palette_def)
  show ?thesis using a by (simp add: assms(1) l)
qed

theorem lru_eighth_tag_reuses_first_color_witness:
  "\<exists>cs p'. allocate_all [''t1'', ''t2'', ''t3'', ''t4'', ''t5'', ''t6'', ''t7'', ''t8''] init_palette
      = Inr (cs, p') \<and> length cs = 8 \<and> cs ! 7 = cs ! 0"
  using lru_eighth_tag_reuses_first_color [of "[''t1'', ''t2'', ''t3'', ''t4'', ''t5'', ''t6'', ''t7'', ''t8'']"]
  by (simp add: init_palette_def)

lemma reachable_total:
  assumes "reachable p"
  shows "\<exists>c p'. allocate_color tag p = Inr (c, p') \<and> reachable p'"
proof -
  from reachable_invs [OF assms] have "ring_inv p" "known_inv p" by simp_all
  from allocate_color_total [OF this] obtain c p' where a: "allocate_color tag p = Inr (c, p')"
    by blast
  with assms have "reachable p'" by (rule reachable_step)
  with a show ?thesis by blast
qed

text \<open>
  Claim C2. In every reachable state of the globals (the initial one included)
  \<open>LAST_USED\<close> holds each of RED, GREEN, YELLOW, BLUE, MAGENTA, CYAN and WHITE exactly
  once, and for every tag the call of \<open>allocate_color\<close> returns and leaves a list with
  the same property.
\<close>

theorem recency_ring_invariant:
  assumes "reachable p"
  shows "distinct (LAST_USED p) \<and>
         set (LAST_USED p) = {RED, GREEN, YELLOW, BLUE, MAGENTA, CYAN, WHITE} \<and>
         (\<exists>c p'. allocate_color tag p = Inr (c, p') \<and> distinct (LAST_USED p') \<and>
            set (LAST_USED p') = {RED, GREEN, YELLOW, BLUE, MAGENTA, CYAN, WHITE})"
proof -
  from reachable_total [OF assms] obtain c p' where
    a: "allocate_color tag p = Inr (c, p')" and r: "reachable p'" by blast
  have "ring_inv p" "ring_inv p'" using reachable_invs assms r by blast+
  then have "distinct (LAST_USED p) \<and>
         set (LAST_USED p) = {RED, GREEN, YELLOW, BLUE, MAGENTA, CYAN, WHITE}"
     "distinct (LAST_USED p') \<and>
         set (LAST_USED p') = {RED, GREEN, YELLOW, BLUE, MAGENTA, CYAN, WHITE}"
    by (simp_all add: ring_inv_def ring_colors_set)
  with a show ?thesis by blast
qed

theorem recency_ring_invariant_witness:
  "reachable init_palette \<and> distinct (LAST_USED init_palette) \<and>
   set (LAST_USED init_palette) = {RED, GREEN, YELLOW, BLUE, MAGENTA, CYAN, WHITE} \<and>
   (\<exists>c p'. allocate_color ''Foo'' init_palette = Inr (c, p') \<and> distinct (LAST_USED p') \<and>
      set (LAST_USED p') = {RED, GREEN, YELLOW, BLUE, MAGENTA, CYAN, WHITE})"
proof -
  have r: "reachable init_palette" by (rule reachable_init)
  show ?thesis using r recency_ring_invariant [OF r, of "''Foo''"] by blast
qed

text \<open>
  Claim C3 fails on the code. After the new tags a, b and c have been given RED, GREEN and
  YELLOW, the list starts with BLUE; the tag d is in no dictionary entry and
  \<open>allocate_color\<close> gives it BLUE, the colour the seed entry for dalvikvm is pinned to.
\<close>

theorem new_tag_gets_seed_color:
  "reachable \<lparr>LAST_USED = [BLUE, MAGENTA, CYAN, WHITE, RED, GREEN, YELLOW],
              KNOWN_TAGS = (KNOWN_TAGS init_palette)
                 (''a'' \<mapsto> RED, ''b'' \<mapsto> GREEN, ''c'' \<mapsto> YELLOW)\<rparr> \<and>
   ''d'' \<notin> dom ((KNOWN_TAGS init_palette) (''a'' \<mapsto> RED, ''b'' \<mapsto> GREEN, ''c'' \<mapsto> YELLOW)) \<and>
   KNOWN_TAGS init_palette ''dalvikvm'' = Some BLUE \<and>
   map_sum id fst
     (allocate_color ''d''
        \<lparr>LAST_USED = [BLUE, MAGENTA, CYAN, WHITE, RED, GREEN, YELLOW],
         KNOWN_TAGS = (KNOWN_TAGS init_palette)
            (''a'' \<mapsto> RED, ''b'' \<mapsto> GREEN, ''c'' \<mapsto> YELLOW)\<rparr>) = Inr BLUE"
proof -
  let ?K = "KNOWN_TAGS init_palette"
  have n: "?K ''a'' = None" "?K ''b'' = None" "?K ''c'' = None" "?K ''d'' = None"
    by (simp_all add: init_palette_def)
  have i: "init_palette = \<lparr>LAST_USED = [RED, GREEN, YELLOW, BLUE, MAGENTA, CYAN, WHITE],
             KNOWN_TAGS = ?K\<rparr>"
    by (simp add: init_palette_def)
  have 1: "reachable \<lparr>LAST_USED = [GREEN, YELLOW, BLUE, MAGENTA, CYAN, WHITE, RED],
             KNOWN_TAGS = ?K(''a'' \<mapsto> RED)\<rparr>"
    by (rule reachable_step [OF reachable_init, of "''a''" RED])
       (subst i, simp add: allocate_color_def dom_def n)
  have 2: "reachable \<lparr>LAST_USED = [YELLOW, BLUE, MAGENTA, CYAN, WHITE, RED, GREEN],
             KNOWN_TAGS = ?K(''a'' \<mapsto> RED, ''b'' \<mapsto> GREEN)\<rparr>"
    by (rule reachable_step [OF 1, of "''b''" GREEN])
       (simp add: allocate_color_def dom_def n)
  have 3: "reachable \<lparr>LAST_USED = [BLUE, MAGENTA, CYAN, WHITE, RED, GREEN, YELLOW],
             KNOWN_TAGS = ?K(''a'' \<mapsto> RED, ''b'' \<mapsto> GREEN, ''c'' \<mapsto> YELLOW)\<rparr>"
    by (rule reachable_step [OF 2, of "''c''" YELLOW])
       (simp add: allocate_color_def dom_def n)
  have 4: "''d'' \<notin> dom (?K(''a'' \<mapsto> RED, ''b'' \<mapsto> GREEN, ''c'' \<mapsto> YELLOW))"
    by (simp add: dom_def n)
  have 5: "?K ''dalvikvm'' = Some BLUE" by (simp add: init_palette_def)
  have 6: "map_sum id fst
     (allocate_color ''d''
        \<lparr>LAST_USED = [BLUE, MAGENTA, CYAN, WHITE, RED, GREEN, YELLOW],
         KNOWN_TAGS = ?K(''a'' \<mapsto> RED, ''b'' \<mapsto> GREEN, ''c'' \<mapsto> YELLOW)\<rparr>) = Inr BLUE"
    by (simp add: allocate_color_def dom_def n)
  from 3 4 5 6 show ?thesis by blast
qed

text \<open>
  Claim C3, amended. The seeds' colours BLUE and CYAN are members of \<open>LAST_USED\<close> in every
  reachable state, and a tag that is not in \<open>KNOWN_TAGS\<close> receives the first element of
  \<open>LAST_USED\<close>, which is never BLACK and is moved to the end of the list.
\<close>

theorem new_tag_gets_ring_head:
  assumes "reachable p" "tag \<notin> dom (KNOWN_TAGS p)"
  shows "BLUE \<in> set (LAST_USED p) \<and> CYAN \<in> set (LAST_USED p) \<and>
         (\<exists>c rest p'. LAST_USED p = c # rest \<and> c \<noteq> BLACK \<and>
            allocate_color tag p = Inr (c, p') \<and> LAST_USED p' = rest @ [c])"
proof -
  from reachable_invs [OF assms(1)] have r: "ring_inv p" by simp
  then have s: "set (LAST_USED p) = {RED, GREEN, YELLOW, BLUE, MAGENTA, CYAN, WHITE}"
    by (simp add: ring_inv_def ring_colors_set)
  then have "LAST_USED p \<noteq> []" by (cases "LAST_USED p") simp_all
  then obtain c rest where L: "LAST_USED p = c # rest" by (cases "LAST_USED p") auto
  have "c \<in> set (LAST_USED p)" by (simp add: L)
  with s have nb: "c \<noteq> BLACK" by auto
  have n: "KNOWN_TAGS p tag = None" using assms(2) by auto
  from allocate_color_new [OF n L] have
    "allocate_color tag p =
       Inr (c, p\<lparr>KNOWN_TAGS := (KNOWN_TAGS p)(tag \<mapsto> c), LAST_USED := rest @ [c]\<rparr>)" .
  with L nb have "\<exists>c rest p'. LAST_USED p = c # rest \<and> c \<noteq> BLACK \<and>
            allocate_color tag p = Inr (c, p') \<and> LAST_USED p' = rest @ [c]"
    by simp
  moreover have "BLUE \<in> set (LAST_USED p)" "CYAN \<in> set (LAST_USED p)" using s by simp_all
  ultimately show ?thesis by blast
qed

theorem new_tag_gets_ring_head_witness:
  "reachable init_palette \<and> ''Foo'' \<notin> dom (KNOWN_TAGS init_palette) \<and>
   BLUE \<in> set (LAST_USED init_palette) \<and> CYAN \<in> set (LAST_USED init_palette) \<and>
   (\<exists>c rest p'. LAST_USED init_palette = c # rest \<and> c \<noteq> BLACK \<and>
      allocate_color ''Foo'' init_palette = Inr (c, p') \<and> LAST_USED p' = rest @ [c])"
proof -
  have r: "reachable init_palette" by (rule reachable_init)
  have n: "''Foo'' \<notin> dom (KNOWN_TAGS init_palette)" by (simp add: init_palette_def)
  show ?thesis using r n new_tag_gets_ring_head [OF r n] by blast
qed

lemma allocate_all_stable:
  assumes "reachable p"
  shows "\<exists>cs p'. allocate_all ts p = Inr (cs, p') \<and> length cs = length ts \<and>
           (\<forall>j c. j < length ts \<and> KNOWN_TAGS p (ts ! j) = Some c \<longrightarrow> cs ! j = c) \<and>
           (\<forall>i j. i < j \<and> j < length ts \<and> ts ! i = ts ! j \<longrightarrow> cs ! j = cs ! i)"
  using assms
proof (induction ts arbitrary: p)
  case Nil
  show ?case by simp
next
  case (Cons t ts)
  from reachable_total [OF Cons.prems] obtain c p1 where
    a: "allocate_color t p = Inr (c, p1)" and r1: "reachable p1" by blast
  note f = allocate_color_Inr [OF a]
  have k1: "KNOWN_TAGS p1 t = Some c" using f by simp
  have mono: "KNOWN_TAGS p1 u = Some d" if "KNOWN_TAGS p u = Some d" for u d
  proof (cases "u = t")
    case True
    with that f have "d = c" by auto
    with True k1 show ?thesis by simp
  next
    case False
    with that f show ?thesis by simp
  qed
  from Cons.IH [OF r1] obtain cs p' where
    b: "allocate_all ts p1 = Inr (cs, p')" and l: "length cs = length ts" and
    known: "\<And>j d. j < length ts \<Longrightarrow> KNOWN_TAGS p1 (ts ! j) = Some d \<Longrightarrow> cs ! j = d" and
    pairs: "\<And>i j. i < j \<Longrightarrow> j < length ts \<Longrightarrow> ts ! i = ts ! j \<Longrightarrow> cs ! j = cs ! i"
    by blast
  have run: "allocate_all (t # ts) p = Inr (c # cs, p')" using a b by simp
  have known': "(c # cs) ! j = d"
    if "j < length (t # ts)" "KNOWN_TAGS p ((t # ts) ! j) = Some d" for j d
  proof (cases j)
    case 0
    with that(2) have "KNOWN_TAGS p1 t = Some d" using mono by simp
    with k1 0 show ?thesis by simp
  next
    case (Suc j')
    with that have "j' < length ts" "KNOWN_TAGS p1 (ts ! j') = Some d" using mono by simp_all
    from known [OF this] Suc show ?thesis by simp
  qed
  have pairs': "(c # cs) ! j = (c # cs) ! i"
    if "i < j" "j < length (t # ts)" "(t # ts) ! i = (t # ts) ! j" for i j
  proof -
    from that(1) obtain j' where j: "j = Suc j'" by (cases j) auto
    with that(2) have jl: "j' < length ts" by simp
    show ?thesis
    proof (cases i)
      case 0
      with that(3) j have "ts ! j' = t" by simp
      with k1 have "KNOWN_TAGS p1 (ts ! j') = Some c" by simp
      from known [OF jl this] 0 j show ?thesis by simp
    next
      case (Suc i')
      with that j have "i' < j'" "ts ! i' = ts ! j'" by simp_all
      from pairs [OF this(1) jl this(2)] Suc j show ?thesis by simp
    qed
  qed
  from run l known' pairs' show ?case by (intro exI conjI allI impI) (simp, simp, blast, blast)
qed

text \<open>
  Claim C4. From every reachable state, every sequence of calls of \<open>allocate_color\<close>
  returns, and whenever the same tag is passed at two positions of the sequence, the later
  call returns the colour of the earlier one, whatever tags come in between.
\<close>

theorem tag_color_stable:
  assumes "reachable p"
  shows "\<exists>cs p'. allocate_all ts p = Inr (cs, p') \<and> length cs = length ts \<and>
           (\<forall>i j. i < j \<and> j < length ts \<and> ts ! i = ts ! j \<longrightarrow> cs ! j = cs ! i)"
  using allocate_all_stable [OF assms, of ts] by blast

theorem tag_color_stable_witness:
  "reachable init_palette \<and>
   (\<exists>cs p'. allocate_all [''Foo'', ''Bar'', ''Foo''] init_palette = Inr (cs, p') \<and>
      length cs = length [''Foo'', ''Bar'', ''Foo''] \<and>
      (\<forall>i j. i < j \<and> j < length [''Foo'', ''Bar'', ''Foo''] \<and>
         [''Foo'', ''Bar'', ''Foo''] ! i = [''Foo'', ''Bar'', ''Foo''] ! j \<longrightarrow> cs ! j = cs ! i))"
proof -
  have r: "reachable init_palette" by (rule reachable_init)
  show ?thesis using r tag_color_stable [OF r, of "[''Foo'', ''Bar'', ''Foo'']"] by blast
qed

section \<open>Line wrapping\<close>

lemma join_Cons: "join sep (x # xs) = x @ (if xs = [] then [] else sep @ join sep xs)"
  by (cases xs) simp_all

lemma py_slice_nonneg:
  "0 \<le> i \<Longrightarrow> i \<le> j \<Longrightarrow> j \<le> int (length xs) \<Longrightarrow>
   py_slice xs i j = take (nat (j - i)) (drop (nat i) xs)"
  by (simp add: py_slice_def clamp_index_def Let_def nat_diff_distrib)

lemma indent_wrap_loop_diverges:
  assumes "indent_wrap_loop message indent wrap_area current messagebuf = Some y"
  shows "\<not> (wrap_area \<le> 0 \<and> current < int (length message))"
proof (rule indent_wrap_loop.raw_induct
    [where P = "\<lambda>m i w c b y. \<not> (w \<le> 0 \<and> c < int (length m))", OF _ assms])
  fix f :: "string \<Rightarrow> int \<Rightarrow> int \<Rightarrow> int \<Rightarrow> string \<Rightarrow> string option"
  fix m :: string and i w c :: int and b y :: string
  assume IH: "\<And>m i w c b y. f m i w c b = Some y \<Longrightarrow> \<not> (w \<le> 0 \<and> c < int (length m))"
  assume body:
    "(if c < int (length m)
      then let next = min (c + w) (int (length m));
               buf1 = b @ py_slice m c next
           in Let (if next < int (length m)
                   then buf1 @ newline # replicate (nat i) space
                   else buf1)
               (f m i w next)
      else Some b) = Some y"
  show "\<not> (w \<le> 0 \<and> c < int (length m))"
  proof
    assume h: "w \<le> 0 \<and> c < int (length m)"
    let ?next = "min (c + w) (int (length m))"
    have n: "?next < int (length m)" using h by simp
    from body h obtain b' where "f m i w ?next b' = Some y"
      by (simp add: Let_def)
    from IH [OF this] n h show False by simp
  qed
qed

lemma indent_wrap_loop_terminates:
  assumes "1 \<le> wrap_area"
  shows "\<exists>y. indent_wrap_loop message indent wrap_area current messagebuf = Some y"
proof (induction "nat (int (length message) - current)" arbitrary: current messagebuf
       rule: less_induct)
  case less
  show ?case
  proof (cases "current < int (length message)")
    case False
    then show ?thesis by (subst indent_wrap_loop.simps) simp
  next
    case True
    let ?next = "min (current + wrap_area) (int (length message))"
    have "nat (int (length message) - ?next) < nat (int (length message) - current)"
      using True assms by simp
    from less [OF this] show ?thesis
      using True by (subst indent_wrap_loop.simps) (simp add: Let_def)
  qed
qed

lemma indent_wrap_loop_chunks:
  assumes W: "1 \<le> wrap_area" and len: "int (length message) = int k * wrap_area"
    and jk: "j \<le> k"
  shows "indent_wrap_loop message indent wrap_area (int j * wrap_area) buf =
         Some (buf @ join (newline # replicate (nat indent) space)
                 (map (\<lambda>i. take (nat wrap_area) (drop (i * nat wrap_area) message)) [j..<k]))"
  using jk
proof (induction "k - j" arbitrary: j buf)
  case 0
  then have "j = k" by simp
  then show ?case using len by (subst indent_wrap_loop.simps) simp
next
  case (Suc d)
  let ?sep = "newline # replicate (nat indent) space"
  let ?chunk = "\<lambda>i. take (nat wrap_area) (drop (i * nat wrap_area) message)"
  let ?cur = "int j * wrap_area"
  let ?n = "int (length message)"
  from Suc.hyps(2) have lt: "j < k" by simp
  have sj: "int (Suc j) * wrap_area \<le> int k * wrap_area"
    using lt W by (intro mult_right_mono) simp_all
  have cur_lt: "?cur < ?n"
  proof -
    have "?cur < int (Suc j) * wrap_area" using W by (simp add: algebra_simps)
    with sj len show ?thesis by simp
  qed
  have nxt: "min (?cur + wrap_area) ?n = int (Suc j) * wrap_area"
    using sj len by (simp add: algebra_simps)
  have cur0: "0 \<le> ?cur" using W by simp
  have sl: "py_slice message ?cur (int (Suc j) * wrap_area) = ?chunk j"
  proof -
    have "py_slice message ?cur (int (Suc j) * wrap_area) =
          take (nat (int (Suc j) * wrap_area - ?cur)) (drop (nat ?cur) message)"
      using cur0 sj len W by (intro py_slice_nonneg) (simp_all add: algebra_simps)
    moreover have "int (Suc j) * wrap_area - ?cur = wrap_area" by (simp add: algebra_simps)
    moreover have "nat ?cur = j * nat wrap_area" using W by (simp add: nat_mult_distrib)
    ultimately show ?thesis by simp
  qed
  have more: "(int (Suc j) * wrap_area < ?n) = (Suc j < k)"
  proof -
    have a: "(int (Suc j) * wrap_area < int k * wrap_area) = (int (Suc j) < int k)"
      using W by (intro mult_less_cancel_right_pos) simp
    have b: "(int (Suc j) < int k) = (Suc j < k)" by (rule of_nat_less_iff)
    show ?thesis by (simp only: len a b)
  qed
  have d: "d = k - Suc j" using Suc.hyps(2) by simp
  have le: "Suc j \<le> k" using lt by simp
  note IH = Suc.hyps(1) [OF d le]
  have unfold: "indent_wrap_loop message indent wrap_area ?cur buf =
        indent_wrap_loop message indent wrap_area (int (Suc j) * wrap_area)
          (if Suc j < k then (buf @ ?chunk j) @ ?sep else buf @ ?chunk j)"
    by (subst indent_wrap_loop.simps) (simp only: cur_lt if_True Let_def nxt sl more)
  have up: "[j..<k] = j # [Suc j..<k]" using lt by (simp add: upt_conv_Cons)
  have e: "(map ?chunk [Suc j..<k] = []) = (\<not> Suc j < k)" by auto
  show ?case
    unfolding unfold IH up list.map join_Cons e by simp
qed

lemma chunk_length:
  assumes "1 \<le> wrap_area" and "int (length message) = int k * wrap_area" and "i < k"
  shows "length (take (nat wrap_area) (drop (i * nat wrap_area) message)) = nat wrap_area"
proof -
  have "length message = k * nat wrap_area"
    using assms(1,2) by (metis nat_int nat_mult_distrib of_nat_0_le_iff)
  moreover have "Suc i * nat wrap_area \<le> k * nat wrap_area"
    using assms(3) by (intro mult_le_mono1) simp
  ultimately show ?thesis by simp
qed

lemma indent_wrap_empty: "indent_wrap [] indent width = Some []"
  unfolding indent_wrap_def by (subst indent_wrap_loop.simps) simp

text \<open>
  Claim C5. With \<open>W = width - indent\<close> at least 1 and a message of length \<open>k * W\<close>,
  \<open>indent_wrap\<close> returns the \<open>k\<close> chunks \<open>message[i*W : (i+1)*W]\<close> in order, joined by a
  newline and \<open>indent\<close> spaces, so every chunk but the first follows that separator and
  nothing follows the last chunk; every chunk has \<open>W\<close> characters; and the empty
  message gives the empty string.
\<close>

theorem indent_wrap_exact:
  assumes "1 \<le> width - indent" and "int (length message) = int k * (width - indent)"
  shows "indent_wrap message indent width =
           Some (join (newline # replicate (nat indent) space)
                   (map (\<lambda>i. take (nat (width - indent)) (drop (i * nat (width - indent)) message))
                      [0..<k])) \<and>
         (\<forall>i<k. length (take (nat (width - indent)) (drop (i * nat (width - indent)) message))
                  = nat (width - indent)) \<and>
         indent_wrap [] indent width = Some []"
  using indent_wrap_loop_chunks [OF assms, of 0 indent "[]"] chunk_length [OF assms]
  by (simp add: indent_wrap_def indent_wrap_empty [unfolded indent_wrap_def])

theorem indent_wrap_exact_witness:
  "(1::int) \<le> 8 - 3 \<and> int (length ''abcdefghij'') = int 2 * (8 - 3) \<and>
   indent_wrap ''abcdefghij'' 3 8 = Some (''abcde'' @ newline # ''   '' @ ''fghij'') \<and>
   indent_wrap [] 3 8 = Some []"
proof -
  have a: "(1::int) \<le> 8 - 3" by simp
  have b: "int (length ''abcdefghij'') = int 2 * (8 - 3)" by simp
  have c: "join (newline # replicate (nat 3) space)
             (map (\<lambda>i. take (nat (8 - 3)) (drop (i * nat (8 - 3)) ''abcdefghij'')) [0..<2]) =
           ''abcde'' @ newline # ''   '' @ ''fghij''"
    by code_simp
  show ?thesis using a b indent_wrap_exact [OF a b] unfolding c by simp
qed

section \<open>The main loop\<close>

lemma retagDefault_groups:
  "retagDefault line = Some groups \<Longrightarrow>
   \<exists>tagtype tag owner message. groups = [tagtype, tag, owner, message]"
  by (auto simp: retagDefault_def Let_def split: list.splits if_splits)

lemma retagTime_groups:
  "retagTime line = Some groups \<Longrightarrow>
   \<exists>time tagtype tag owner message. groups = [time, tagtype, tag, owner, message]"
  by (auto simp: retagTime_def Let_def split: option.splits if_splits dest: retagDefault_groups)

lemma match_line_cases:
  assumes "match_line timeOut line = (tO, m)"
  shows "(timeOut \<and> tO \<and> m = retagTime line) \<or>
         (\<not> timeOut \<and> \<not> tO \<and> m = retagDefault line \<and> m \<noteq> None) \<or>
         (\<not> timeOut \<and> tO \<and> retagDefault line = None \<and> m = retagTime line \<and> m \<noteq> None) \<or>
         (\<not> timeOut \<and> \<not> tO \<and> retagDefault line = None \<and> retagTime line = None \<and> m = None)"
proof (cases timeOut)
  case True
  with assms show ?thesis by (auto simp: match_line_def)
next
  case False
  show ?thesis
  proof (cases "retagDefault line")
    case (Some g)
    with False assms have "tO = False" "m = Some g" by (auto simp: match_line_def)
    with False Some show ?thesis by simp
  next
    case None
    show ?thesis
    proof (cases "retagTime line")
      case (Some g)
      with None False assms have "tO = True" "m = Some g" by (auto simp: match_line_def)
      with False None Some show ?thesis by simp
    next
      case n: None
      with None False assms have "tO = False" "m = None" by (auto simp: match_line_def)
      with False None n show ?thesis by simp
    qed
  qed
qed

lemma match_line_unpack:
  assumes "match_line timeOut line = (tO, Some groups)"
  shows "\<exists>time tagtype tag owner message.
           unpack tO groups = Some (time, tagtype, tag, owner, message)"
  using match_line_cases [OF assms] retagDefault_groups [of line groups]
    retagTime_groups [of line groups]
  by (auto simp: unpack_def)

lemma match_line_None:
  "match_line timeOut line = (tO, None) \<Longrightarrow> tO = timeOut"
  by (auto simp: match_line_def split: option.splits if_splits)


lemma number_column_nonempty: "number_column n \<noteq> []"
  by (simp add: number_column_def)

lemma process_line_unmatched:
  assumes "match_line (timeOutputted d) line = (tO, None)"
  shows "process_line WIDTH d line =
           Some (if line = [] then Break_eof else Reading,
                 d\<lparr>stdout := stdout d @ line @ [newline]\<rparr>)"
  using assms match_line_None [OF assms]
  by (simp add: process_line_def print_line_def)

lemma process_line_raised:
  assumes "match_line (timeOutputted d) line = (tO, Some groups)"
    and "unpack tO groups = Some (time, tagtype, tag, owner, message)"
    and "allocate_color (strip tag) (palette d) = Inl e"
  shows "process_line WIDTH d line =
           Some (Raised e, d\<lparr>timeOutputted := tO, linenumber := linenumber d + 1\<rparr>)"
  using assms by (simp add: process_line_def layout_line_def Let_def)

lemma process_line_matched:
  assumes "match_line (timeOutputted d) line = (tO, Some groups)"
    and "unpack tO groups = Some (time, tagtype, tag, owner, message)"
    and "allocate_color (strip tag) (palette d) = Inr (color, p)"
  shows "process_line WIDTH d line =
           (case TAGTYPES tagtype of
              None \<Rightarrow>
                Some (Break_tagtype,
                      d\<lparr>timeOutputted := tO, linenumber := linenumber d + 1, palette := p\<rparr>)
            | Some badge \<Rightarrow>
                (case indent_wrap message (headerSize tO) WIDTH of
                   None \<Rightarrow> None
                 | Some wrapped \<Rightarrow>
                     Some (Reading,
                           d\<lparr>timeOutputted := tO, linenumber := linenumber d + 1, palette := p,
                             stdout := stdout d @ number_column (linenumber d)
                               @ owner_column owner @ tag_column color (strip tag) @ badge
                               @ time_column tO time @ wrapped @ [newline]\<rparr>)))"
  using assms
  by (simp add: process_line_def layout_line_def Let_def print_line_def number_column_nonempty
      split: option.splits)

lemma process_line_Some:
  assumes "process_line WIDTH d line = Some (oc, d')"
    and "match_line (timeOutputted d) line = (tO, m)"
  shows "timeOutputted d' = tO \<and>
         linenumber d' = linenumber d + (if m = None then 0 else 1) \<and>
         (reachable (palette d) \<longrightarrow> reachable (palette d'))"
proof (cases m)
  case None
  with assms(2) have "match_line (timeOutputted d) line = (tO, None)" by simp
  from process_line_unmatched [OF this, of WIDTH] match_line_None [OF this] assms(1) None
  show ?thesis by auto
next
  case (Some groups)
  with assms(2) have ml: "match_line (timeOutputted d) line = (tO, Some groups)" by simp
  from match_line_unpack [OF ml] obtain time tagtype tag owner message where
    u: "unpack tO groups = Some (time, tagtype, tag, owner, message)" by blast
  show ?thesis
  proof (cases "allocate_color (strip tag) (palette d)")
    case (Inl e)
    from process_line_raised [OF ml u Inl, of WIDTH] assms(1) Some
    have "timeOutputted d' = tO" "linenumber d' = linenumber d + 1" "palette d' = palette d"
      by auto
    with Some show ?thesis by simp
  next
    case (Inr r)
    obtain color p where r: "r = (color, p)" by (cases r)
    with Inr have a: "allocate_color (strip tag) (palette d) = Inr (color, p)" by simp
    from process_line_matched [OF ml u a, of WIDTH] assms(1)
    have "timeOutputted d' = tO" "linenumber d' = linenumber d + 1" "palette d' = p"
      by (auto split: option.splits)
    moreover have "reachable (palette d) \<longrightarrow> reachable p"
      using a reachable_step by blast
    ultimately show ?thesis using Some by simp
  qed
qed


lemma process_line_reachable:
  assumes "process_line WIDTH d line = Some (oc, d')" and "reachable (palette d)"
  shows "reachable (palette d')"
proof -
  obtain tO m where ml: "match_line (timeOutputted d) line = (tO, m)"
    by (cases "match_line (timeOutputted d) line")
  with process_line_Some [OF assms(1) ml] assms(2) show ?thesis by simp
qed


lemma main_loop_reachable:
  "main_loop WIDTH rs d = Some (oc, d') \<Longrightarrow> reachable (palette d) \<Longrightarrow> reachable (palette d')"
proof (induction WIDTH rs d rule: main_loop.induct)
  case (1 WIDTH d)
  then show ?case by simp
next
  case (2 WIDTH rs d)
  then show ?case by simp
next
  case (3 WIDTH line rs d)
  from "3.prems"(1) obtain oc1 d1 where
    p: "process_line WIDTH d line = Some (oc1, d1)"
    by (cases "process_line WIDTH d line") auto
  from process_line_reachable [OF p "3.prems"(2)] have f: "reachable (palette d1)" .
  show ?case
  proof (cases "oc1 = Reading")
    case True
    with p "3.prems"(1) have "main_loop WIDTH rs d1 = Some (oc, d')" by simp
    from "3.IH" [OF p refl True this f] show ?thesis .
  next
    case False
    with p "3.prems"(1) have "d' = d1" by simp
    with f show ?thesis by simp
  qed
qed

lemma main_loop_append:
  "main_loop WIDTH pre d = Some (Reading, d1) \<Longrightarrow>
   main_loop WIDTH (pre @ rest) d = main_loop WIDTH rest d1"
proof (induction WIDTH pre d rule: main_loop.induct)
  case (1 WIDTH d)
  then show ?case by simp
next
  case (2 WIDTH rs d)
  then show ?case by simp
next
  case (3 WIDTH line rs d)
  from "3.prems" obtain oc2 d2 where
    p: "process_line WIDTH d line = Some (oc2, d2)"
    by (cases "process_line WIDTH d line") auto
  show ?case
  proof (cases "oc2 = Reading")
    case True
    with p "3.prems" have "main_loop WIDTH rs d2 = Some (Reading, d1)" by simp
    from "3.IH" [OF p refl True this] p True show ?thesis by simp
  next
    case False
    with p "3.prems" show ?thesis by simp
  qed
qed

lemma TAGTYPES_None:
  "(TAGTYPES tagtype = None) = (tagtype \<notin> {''V'', ''D'', ''I'', ''W'', ''E''})"
  by (simp add: TAGTYPES_def)

lemma headerSize_values: "headerSize False = 46 \<and> headerSize True = 67"
  by (simp add: headerSize_def HEADER_SIZE_def NUMBER_WIDTH_def TAGTYPE_WIDTH_def
      TAG_WIDTH_def PROCESS_WIDTH_def TIME_WIDTH_def)

lemma indent_wrap_terminates:
  "1 \<le> width - indent \<Longrightarrow> \<exists>y. indent_wrap message indent width = Some y"
  unfolding indent_wrap_def by (rule indent_wrap_loop_terminates)

lemma indent_wrap_diverges:
  assumes "width - indent \<le> 0" and "message \<noteq> []"
  shows "indent_wrap message indent width = None"
proof (cases "indent_wrap message indent width")
  case None
  then show ?thesis .
next
  case (Some y)
  then have "indent_wrap_loop message indent (width - indent) 0 [] = Some y"
    by (simp add: indent_wrap_def)
  from indent_wrap_loop_diverges [OF this] assms show ?thesis by simp
qed


lemma process_line_unknown_tagtype:
  assumes "reachable (palette d)"
    and "match_line (timeOutputted d) line = (tO, Some groups)"
    and "unpack tO groups = Some (time, tagtype, tag, owner, message)"
    and "tagtype \<notin> {''V'', ''D'', ''I'', ''W'', ''E''}"
  shows "\<exists>d'. process_line WIDTH d line = Some (Break_tagtype, d') \<and>
           stdout d' = stdout d \<and> linenumber d' = linenumber d + 1"
proof -
  from reachable_total [OF assms(1)] obtain color p where
    a: "allocate_color (strip tag) (palette d) = Inr (color, p)" by blast
  have n: "TAGTYPES tagtype = None" using assms(4) TAGTYPES_None by blast
  from process_line_matched [OF assms(2,3) a, of WIDTH] n show ?thesis by simp
qed

lemma init_driver_reachable: "reachable (palette (init_driver isatty))"
  by (simp add: init_driver_def reachable_init)


lemma layout_line_header:
  "layout_line WIDTH d groups =
     (case layout_header d groups of
        Left oc d' \<Rightarrow> Some (oc, d')
      | At_wrap d' linebuf message hs \<Rightarrow>
          (case indent_wrap message hs WIDTH of
             None \<Rightarrow> None
           | Some wrapped \<Rightarrow> Some (print_line (linebuf @ wrapped) d')))"
  by (simp add: layout_line_def layout_header_def Let_def
      split: option.splits sum.splits prod.splits)

lemma layout_header_linenumber:
  assumes "match_line timeOut line = (tO, Some groups)" and "timeOutputted d = tO"
  shows "linenumber (progress_state (layout_header d groups)) = linenumber d + 1"
proof -
  from match_line_unpack [OF assms(1)] obtain time tagtype tag owner message where
    "unpack tO groups = Some (time, tagtype, tag, owner, message)" by blast
  then show ?thesis
    by (simp add: layout_header_def assms(2) Let_def split: option.splits sum.splits prod.splits)
qed

lemma process_line_header:
  assumes "match_line (timeOutputted d) line = (tO, Some groups)"
  shows "process_line WIDTH d line =
     (case layout_header (d\<lparr>timeOutputted := tO\<rparr>) groups of
        Left oc d' \<Rightarrow> Some (oc, d')
      | At_wrap d' linebuf message hs \<Rightarrow>
          (case indent_wrap message hs WIDTH of
             None \<Rightarrow> None
           | Some wrapped \<Rightarrow> Some (print_line (linebuf @ wrapped) d')))"
  using assms by (simp add: process_line_def layout_line_header)


section \<open>Claims about the main loop\<close>



text \<open>
  Claim C7 fails on the code for a line of the brief shape read with the flag set. The
  line \<open>Z/Foo(1): bar\<close> matches the brief pattern and its severity letter is not one of
  the five, but with the flag set (from the start on a terminal, line 135, or after a
  timestamped line, line 160) only \<open>retagTime\<close> is tried at line 153: the line is not
  matched, it is printed at line 207, and the loop goes on to print the next line.
\<close>

theorem brief_shaped_unknown_severity_passes_through:
  "retagDefault (''Z/Foo(1): bar'' @ [newline]) = Some [''Z'', ''Foo'', ''1'', ''bar''] \<and>
   ''Z'' \<notin> {''V'', ''D'', ''I'', ''W'', ''E''} \<and>
   timeOutputted (init_driver True) \<and>
   map_option fst
     (main_loop 80 [Line (''Z/Foo(1): bar'' @ [newline]), Line (''next'' @ [newline])]
        (init_driver True)) = Some Reading \<and>
   map_option (stdout \<circ> snd)
     (main_loop 80 [Line (''Z/Foo(1): bar'' @ [newline]), Line (''next'' @ [newline])]
        (init_driver True)) =
     Some (''Z/Foo(1): bar'' @ [newline, newline] @ ''next'' @ [newline, newline]) \<and>
   \<not> timeOutputted (init_driver False) \<and>
   map_option fst
     (main_loop 80 [Line (''01-02 03:04:05.678 I/Foo(1): hi'' @ [newline]),
                    Line (''Z/Foo(1): bar'' @ [newline]), Line (''next'' @ [newline])]
        (init_driver False)) = Some Reading"
  by code_simp

text \<open>
  Claim C7, amended. The loop has processed the lines \<open>pre\<close> and is reading the next one; that
  line is matched by \<open>match_line\<close> in the mode the loop is in (with the flag set,
  line 153 tries \<open>retagTime\<close> only) and its severity letter is none of V, D, I, W, E.
  Then the loop ends at the \<open>break\<close> of line 186 whatever lines follow, and standard
  output is what it was after \<open>pre\<close>: nothing is written for the line or for any later
  one.
\<close>

theorem unknown_severity_stops:
  assumes "reachable (palette d)"
    and "main_loop WIDTH pre d = Some (Reading, d1)"
    and "match_line (timeOutputted d1) line = (tO, Some groups)"
    and "unpack tO groups = Some (time, tagtype, tag, owner, message)"
    and "tagtype \<notin> {''V'', ''D'', ''I'', ''W'', ''E''}"
  shows "\<exists>d2. main_loop WIDTH (pre @ Line line # post) d = Some (Break_tagtype, d2) \<and>
           stdout d2 = stdout d1"
proof -
  from main_loop_reachable [OF assms(2,1)] have r: "reachable (palette d1)" .
  from process_line_unknown_tagtype [OF r assms(3,4,5), of WIDTH] obtain d2 where
    p: "process_line WIDTH d1 line = Some (Break_tagtype, d2)" and s: "stdout d2 = stdout d1"
    by blast
  have "main_loop WIDTH (pre @ Line line # post) d = main_loop WIDTH (Line line # post) d1"
    by (rule main_loop_append [OF assms(2)])
  with p s show ?thesis by simp
qed

theorem unknown_severity_stops_witness:
  "reachable (palette (init_driver False)) \<and>
   (\<exists>d1. main_loop 80 [Line (''I/Foo(1): bar'' @ [newline])] (init_driver False)
            = Some (Reading, d1) \<and>
      match_line (timeOutputted d1) (''Z/Foo(1): bar'' @ [newline])
        = (False, Some [''Z'', ''Foo'', ''1'', ''bar'']) \<and>
      unpack False [''Z'', ''Foo'', ''1'', ''bar''] = Some ([], ''Z'', ''Foo'', ''1'', ''bar'') \<and>
      ''Z'' \<notin> {''V'', ''D'', ''I'', ''W'', ''E''} \<and>
      (\<exists>d2. main_loop 80 ([Line (''I/Foo(1): bar'' @ [newline])]
                 @ Line (''Z/Foo(1): bar'' @ [newline])
                 # [Line (''I/Foo(1): again'' @ [newline])]) (init_driver False)
               = Some (Break_tagtype, d2) \<and> stdout d2 = stdout d1))"
proof -
  let ?pre = "[Line (''I/Foo(1): bar'' @ [newline])]"
  let ?bad = "''Z/Foo(1): bar'' @ [newline]"
  have r: "reachable (palette (init_driver False))" by (rule init_driver_reachable)
  have "map_option (\<lambda>(oc, d). (oc, timeOutputted d)) (main_loop 80 ?pre (init_driver False))
        = Some (Reading, False)" by code_simp
  then obtain d1 where p: "main_loop 80 ?pre (init_driver False) = Some (Reading, d1)"
    and t: "timeOutputted d1 = False"
    by (cases "main_loop 80 ?pre (init_driver False)") auto
  have "match_line False ?bad = (False, Some [''Z'', ''Foo'', ''1'', ''bar''])" by code_simp
  with t have m: "match_line (timeOutputted d1) ?bad = (False, Some [''Z'', ''Foo'', ''1'', ''bar''])"
    by simp
  have u: "unpack False [''Z'', ''Foo'', ''1'', ''bar''] = Some ([], ''Z'', ''Foo'', ''1'', ''bar'')"
    by (simp add: unpack_def)
  have z: "''Z'' \<notin> {''V'', ''D'', ''I'', ''W'', ''E''}" by simp
  from unknown_severity_stops [OF r p m u z, of "[Line (''I/Foo(1): again'' @ [newline])]"] r p m u z
  show ?thesis by blast
qed

text \<open>
  Claim C8 fails on the code for a line of the brief shape read with the flag set: the
  line \<open>I/Foo(1): bar\<close> matches the brief pattern, but with the flag set only
  \<open>retagTime\<close> is tried, the line is printed unmatched and the counter stays at 1.
\<close>

theorem brief_shaped_line_in_time_mode_keeps_linenumber:
  "retagDefault (''I/Foo(1): bar'' @ [newline]) = Some [''I'', ''Foo'', ''1'', ''bar''] \<and>
   timeOutputted (init_driver True) \<and> linenumber (init_driver True) = 1 \<and>
   map_option fst (process_line 80 (init_driver True) (''I/Foo(1): bar'' @ [newline]))
     = Some Reading \<and>
   map_option (linenumber \<circ> snd)
     (process_line 80 (init_driver True) (''I/Foo(1): bar'' @ [newline])) = Some 1"
  by code_simp

text \<open>
  Claim C8, amended. The counter starts at 1. A pass over a line that \<open>match_line\<close> does
  not match in the current mode returns and leaves the counter alone. Every pass over a
  matched line that returns, with whatever outcome, has added exactly 1; such a pass does
  return when the width exceeds the header size; a matched line with an unrecognized
  severity letter ends the loop at line 186 with the counter already incremented; and for
  every matched line the part of the pass before the call of \<open>indent_wrap\<close> completes
  with the counter incremented, whether or not that call returns.
\<close>

theorem linenumber_once_per_matched_line:
  "linenumber (init_driver isatty) = 1 \<and>
   (match_line (timeOutputted d) line = (tO, None) \<longrightarrow>
      (\<exists>oc d'. process_line WIDTH d line = Some (oc, d') \<and> linenumber d' = linenumber d)) \<and>
   (match_line (timeOutputted d) line = (tO, Some groups) \<and>
      process_line WIDTH d line = Some (oc, d') \<longrightarrow> linenumber d' = linenumber d + 1) \<and>
   (match_line (timeOutputted d) line = (tO, Some groups) \<and> reachable (palette d) \<and>
      1 \<le> WIDTH - headerSize tO \<longrightarrow>
      (\<exists>oc d'. process_line WIDTH d line = Some (oc, d') \<and> linenumber d' = linenumber d + 1)) \<and>
   (match_line (timeOutputted d) line = (tO, Some groups) \<and> reachable (palette d) \<and>
      unpack tO groups = Some (time, tagtype, tag, owner, message) \<and>
      tagtype \<notin> {''V'', ''D'', ''I'', ''W'', ''E''} \<longrightarrow>
      (\<exists>d'. process_line WIDTH d line = Some (Break_tagtype, d') \<and>
         linenumber d' = linenumber d + 1)) \<and>
   (match_line (timeOutputted d) line = (tO, Some groups) \<longrightarrow>
      linenumber (progress_state (layout_header (d\<lparr>timeOutputted := tO\<rparr>) groups))
        = linenumber d + 1 \<and>
      process_line WIDTH d line =
        (case layout_header (d\<lparr>timeOutputted := tO\<rparr>) groups of
           Left oc' e \<Rightarrow> Some (oc', e)
         | At_wrap e linebuf msg hs \<Rightarrow>
             (case indent_wrap msg hs WIDTH of
                None \<Rightarrow> None
              | Some wrapped \<Rightarrow> Some (print_line (linebuf @ wrapped) e))))"
proof (intro conjI impI)
  show "linenumber (init_driver isatty) = 1" by (simp add: init_driver_def)
next
  assume "match_line (timeOutputted d) line = (tO, None)"
  from process_line_unmatched [OF this, of WIDTH]
  show "\<exists>oc d'. process_line WIDTH d line = Some (oc, d') \<and> linenumber d' = linenumber d"
    by simp
next
  assume "match_line (timeOutputted d) line = (tO, Some groups) \<and>
      process_line WIDTH d line = Some (oc, d')"
  then show "linenumber d' = linenumber d + 1"
    using process_line_Some [of WIDTH d line oc d' tO "Some groups"] by simp
next
  assume h: "match_line (timeOutputted d) line = (tO, Some groups) \<and> reachable (palette d) \<and>
      1 \<le> WIDTH - headerSize tO"
  then have ml: "match_line (timeOutputted d) line = (tO, Some groups)" by simp
  from match_line_unpack [OF ml] obtain time tagtype tag owner message where
    u: "unpack tO groups = Some (time, tagtype, tag, owner, message)" by blast
  from h reachable_total obtain color p where
    a: "allocate_color (strip tag) (palette d) = Inr (color, p)" by blast
  from h indent_wrap_terminates obtain wrapped where
    w: "indent_wrap message (headerSize tO) WIDTH = Some wrapped" by blast
  from process_line_matched [OF ml u a, of WIDTH] w
  obtain oc d' where p: "process_line WIDTH d line = Some (oc, d')"
    by (cases "TAGTYPES tagtype") auto
  from process_line_Some [OF p ml] p
  show "\<exists>oc d'. process_line WIDTH d line = Some (oc, d') \<and> linenumber d' = linenumber d + 1"
    by simp
next
  assume h: "match_line (timeOutputted d) line = (tO, Some groups) \<and> reachable (palette d) \<and>
      unpack tO groups = Some (time, tagtype, tag, owner, message) \<and>
      tagtype \<notin> {''V'', ''D'', ''I'', ''W'', ''E''}"
  then show "\<exists>d'. process_line WIDTH d line = Some (Break_tagtype, d') \<and>
         linenumber d' = linenumber d + 1"
    using process_line_unknown_tagtype [of d line tO groups time tagtype tag owner message WIDTH]
    by blast
next
  assume h: "match_line (timeOutputted d) line = (tO, Some groups)"
  have "timeOutputted (d\<lparr>timeOutputted := tO\<rparr>) = tO" by simp
  from layout_header_linenumber [OF h this]
  show "linenumber (progress_state (layout_header (d\<lparr>timeOutputted := tO\<rparr>) groups))
        = linenumber d + 1" by simp
next
  assume h: "match_line (timeOutputted d) line = (tO, Some groups)"
  show "process_line WIDTH d line =
        (case layout_header (d\<lparr>timeOutputted := tO\<rparr>) groups of
           Left oc' e \<Rightarrow> Some (oc', e)
         | At_wrap e linebuf msg hs \<Rightarrow>
             (case indent_wrap msg hs WIDTH of
                None \<Rightarrow> None
              | Some wrapped \<Rightarrow> Some (print_line (linebuf @ wrapped) e)))"
    by (rule process_line_header [OF h])
qed

theorem linenumber_once_per_matched_line_witness:
  "match_line (timeOutputted (init_driver False)) (''garbage'' @ [newline]) = (False, None) \<and>
   (\<exists>oc d'. process_line 80 (init_driver False) (''garbage'' @ [newline]) = Some (oc, d') \<and>
      linenumber d' = 1) \<and>
   match_line (timeOutputted (init_driver False)) (''I/Foo(1): bar'' @ [newline])
     = (False, Some [''I'', ''Foo'', ''1'', ''bar'']) \<and>
   reachable (palette (init_driver False)) \<and> 1 \<le> 80 - headerSize False \<and>
   (\<exists>oc d'. process_line 80 (init_driver False) (''I/Foo(1): bar'' @ [newline]) = Some (oc, d') \<and>
      linenumber d' = 2) \<and>
   match_line (timeOutputted (init_driver False)) (''Z/Foo(1): bar'' @ [newline])
     = (False, Some [''Z'', ''Foo'', ''1'', ''bar'']) \<and>
   unpack False [''Z'', ''Foo'', ''1'', ''bar''] = Some ([], ''Z'', ''Foo'', ''1'', ''bar'') \<and>
   ''Z'' \<notin> {''V'', ''D'', ''I'', ''W'', ''E''} \<and>
   (\<exists>d'. process_line 80 (init_driver False) (''Z/Foo(1): bar'' @ [newline])
      = Some (Break_tagtype, d') \<and> linenumber d' = 2) \<and>
   linenumber (progress_state
     (layout_header ((init_driver False)\<lparr>timeOutputted := False\<rparr>)
        [''I'', ''Foo'', ''1'', ''bar''])) = 2"
proof -
  let ?d = "init_driver False"
  have l: "linenumber ?d = 1" by (simp add: init_driver_def)
  have m0: "match_line (timeOutputted ?d) (''garbage'' @ [newline]) = (False, None)"
    by code_simp
  have m1: "match_line (timeOutputted ?d) (''I/Foo(1): bar'' @ [newline])
     = (False, Some [''I'', ''Foo'', ''1'', ''bar''])" by code_simp
  have m2: "match_line (timeOutputted ?d) (''Z/Foo(1): bar'' @ [newline])
     = (False, Some [''Z'', ''Foo'', ''1'', ''bar''])" by code_simp
  have r: "reachable (palette ?d)" by (rule init_driver_reachable)
  have h: "1 \<le> 80 - headerSize False" using headerSize_values by simp
  have u: "unpack False [''Z'', ''Foo'', ''1'', ''bar''] = Some ([], ''Z'', ''Foo'', ''1'', ''bar'')"
    by (simp add: unpack_def)
  have z: "''Z'' \<notin> {''V'', ''D'', ''I'', ''W'', ''E''}" by simp
  note T0 = linenumber_once_per_matched_line [where d = ?d
      and line = "''garbage'' @ [newline]" and tO = False and WIDTH = 80]
  have 1: "\<exists>oc d'. process_line 80 ?d (''garbage'' @ [newline]) = Some (oc, d') \<and>
      linenumber d' = 1"
    using mp [OF T0 [THEN conjunct2, THEN conjunct1] m0] l by simp
  note T1 = linenumber_once_per_matched_line [where d = ?d
      and line = "''I/Foo(1): bar'' @ [newline]" and tO = False and WIDTH = 80
      and groups = "[''I'', ''Foo'', ''1'', ''bar'']"]
  have "\<exists>oc d'. process_line 80 ?d (''I/Foo(1): bar'' @ [newline]) = Some (oc, d') \<and>
      linenumber d' = linenumber ?d + 1"
    by (rule mp [OF T1 [THEN conjunct2, THEN conjunct2, THEN conjunct2, THEN conjunct1]])
       (intro conjI m1 r h)
  then have 2: "\<exists>oc d'. process_line 80 ?d (''I/Foo(1): bar'' @ [newline]) = Some (oc, d') \<and>
      linenumber d' = 2" by (simp add: l)
  note T2 = linenumber_once_per_matched_line [where d = ?d
      and line = "''Z/Foo(1): bar'' @ [newline]" and tO = False and WIDTH = 80
      and groups = "[''Z'', ''Foo'', ''1'', ''bar'']" and time = "[]" and tagtype = "''Z''"
      and tag = "''Foo''" and owner = "''1''" and message = "''bar''"]
  have "\<exists>d'. process_line 80 ?d (''Z/Foo(1): bar'' @ [newline])
      = Some (Break_tagtype, d') \<and> linenumber d' = linenumber ?d + 1"
    by (rule mp [OF T2 [THEN conjunct2, THEN conjunct2, THEN conjunct2, THEN conjunct2,
            THEN conjunct1]])
       (intro conjI m2 r u z)
  then have 3: "\<exists>d'. process_line 80 ?d (''Z/Foo(1): bar'' @ [newline])
      = Some (Break_tagtype, d') \<and> linenumber d' = 2" by (simp add: l)
  note T = linenumber_once_per_matched_line [where d = ?d
      and line = "''I/Foo(1): bar'' @ [newline]" and tO = False and WIDTH = 80
      and groups = "[''I'', ''Foo'', ''1'', ''bar'']"]
  note T6 = T [THEN conjunct2, THEN conjunct2, THEN conjunct2, THEN conjunct2, THEN conjunct2]
  have 4: "linenumber (progress_state
     (layout_header (?d\<lparr>timeOutputted := False\<rparr>) [''I'', ''Foo'', ''1'', ''bar''])) = 2"
    using conjunct1 [OF mp [OF T6 m1]] l by simp
  show ?thesis by (intro conjI m0 m1 m2 r h u z 1 2 3 4)
qed

text \<open>
  Claim C9 on the code. The line \<open>hello\<close> with its newline matches neither pattern; the
  loop prints it with \<open>print\<close>, which adds a newline of its own, so the output is the
  line followed by a second newline and not the line as it was read.
\<close>

theorem unmatched_line_printed_with_extra_newline:
  "retagDefault (''hello'' @ [newline]) = None \<and> retagTime (''hello'' @ [newline]) = None \<and>
   map_option fst (process_line 80 (init_driver False) (''hello'' @ [newline])) = Some Reading \<and>
   map_option (stdout \<circ> snd) (process_line 80 (init_driver False) (''hello'' @ [newline])) =
     Some (''hello'' @ [newline, newline])"
  by code_simp

text \<open>
  Claim C10 fails on the code in its last sentence. With a terminal 40 columns wide the
  line \<open>Z/Foo(1): bar\<close> matches the brief pattern and its message is not empty, but
  the loop is left at line 186 before \<open>indent_wrap\<close> is called: the pass returns.
\<close>

theorem narrow_unknown_severity_terminates:
  "retagDefault ''Z/Foo(1): bar'' = Some [''Z'', ''Foo'', ''1'', ''bar''] \<and>
   (40::int) \<le> headerSize False \<and>
   map_option fst (process_line 40 (init_driver False) ''Z/Foo(1): bar'') = Some Break_tagtype"
  by code_simp

text \<open>
  Claim C10, amended. \<open>indent_wrap\<close> returns for every message when
  \<open>width - indent\<close> is at least 1, and does not return when \<open>width - indent\<close> is at
  most 0 and the message is not empty. The header size is 46 in brief mode and 67 in
  timestamped mode, and a matched line whose severity letter is one of V, D, I, W, E and
  whose message is not empty is never finished when the terminal width is at most the
  header size.
\<close>

theorem indent_wrap_termination:
  "(1 \<le> width - indent \<longrightarrow> (\<exists>y. indent_wrap message indent width = Some y)) \<and>
   (width - indent \<le> 0 \<and> message \<noteq> [] \<longrightarrow> indent_wrap message indent width = None) \<and>
   headerSize False = 46 \<and> headerSize True = 67 \<and>
   (match_line (timeOutputted d) line = (tO, Some groups) \<and>
      unpack tO groups = Some (time, tagtype, tag, owner, msg) \<and>
      tagtype \<in> {''V'', ''D'', ''I'', ''W'', ''E''} \<and> reachable (palette d) \<and>
      WIDTH \<le> headerSize tO \<and> msg \<noteq> [] \<longrightarrow>
      process_line WIDTH d line = None)"
proof (intro conjI impI)
  assume "1 \<le> width - indent"
  then show "\<exists>y. indent_wrap message indent width = Some y" by (rule indent_wrap_terminates)
next
  assume "width - indent \<le> 0 \<and> message \<noteq> []"
  then show "indent_wrap message indent width = None" using indent_wrap_diverges by blast
next
  show "headerSize False = 46" "headerSize True = 67" using headerSize_values by simp_all
next
  assume h: "match_line (timeOutputted d) line = (tO, Some groups) \<and>
      unpack tO groups = Some (time, tagtype, tag, owner, msg) \<and>
      tagtype \<in> {''V'', ''D'', ''I'', ''W'', ''E''} \<and> reachable (palette d) \<and>
      WIDTH \<le> headerSize tO \<and> msg \<noteq> []"
  then have ml: "match_line (timeOutputted d) line = (tO, Some groups)"
    and u: "unpack tO groups = Some (time, tagtype, tag, owner, msg)" by simp_all
  from h reachable_total obtain color p where
    a: "allocate_color (strip tag) (palette d) = Inr (color, p)" by blast
  from h have "TAGTYPES tagtype \<noteq> None" using TAGTYPES_None by blast
  then obtain badge where b: "TAGTYPES tagtype = Some badge" by auto
  from h have "indent_wrap msg (headerSize tO) WIDTH = None"
    by (intro indent_wrap_diverges) simp_all
  with process_line_matched [OF ml u a, of WIDTH] b
  show "process_line WIDTH d line = None" by simp
qed

theorem indent_wrap_termination_witness:
  "(1::int) \<le> 80 - 46 \<and> (\<exists>y. indent_wrap ''bar'' 46 80 = Some y) \<and>
   (40::int) - 46 \<le> 0 \<and> ''bar'' \<noteq> [] \<and> indent_wrap ''bar'' 46 40 = None \<and>
   match_line (timeOutputted (init_driver False)) ''I/Foo(1): bar''
     = (False, Some [''I'', ''Foo'', ''1'', ''bar'']) \<and>
   unpack False [''I'', ''Foo'', ''1'', ''bar''] = Some ([], ''I'', ''Foo'', ''1'', ''bar'') \<and>
   ''I'' \<in> {''V'', ''D'', ''I'', ''W'', ''E''} \<and> reachable (palette (init_driver False)) \<and>
   40 \<le> headerSize False \<and>
   process_line 40 (init_driver False) ''I/Foo(1): bar'' = None"
proof -
  have a: "(1::int) \<le> 80 - 46" "(40::int) - 46 \<le> 0 \<and> ''bar'' \<noteq> []" by simp_all
  have m: "match_line (timeOutputted (init_driver False)) ''I/Foo(1): bar''
     = (False, Some [''I'', ''Foo'', ''1'', ''bar''])" by code_simp
  have u: "unpack False [''I'', ''Foo'', ''1'', ''bar''] = Some ([], ''I'', ''Foo'', ''1'', ''bar'')"
    by (simp add: unpack_def)
  have t: "''I'' \<in> {''V'', ''D'', ''I'', ''W'', ''E''}" by simp
  have r: "reachable (palette (init_driver False))" by (rule init_driver_reachable)
  have h: "40 \<le> headerSize False" using headerSize_values by simp
  note T1 = indent_wrap_termination [where width = 80 and indent = 46 and message = "''bar''"]
  note T2 = indent_wrap_termination [where width = 40 and indent = 46 and message = "''bar''"
      and d = "init_driver False" and line = "''I/Foo(1): bar''" and tO = False
      and groups = "[''I'', ''Foo'', ''1'', ''bar'']" and time = "[]" and tagtype = "''I''"
      and tag = "''Foo''" and owner = "''1''" and msg = "''bar''" and WIDTH = 40]
  from T1 a have 1: "\<exists>y. indent_wrap ''bar'' 46 80 = Some y" by blast
  from T2 a have 2: "indent_wrap ''bar'' 46 40 = None" by blast
  from T2 m u t r h have 3: "process_line 40 (init_driver False) ''I/Foo(1): bar'' = None"
    by blast
  from a m u t r h 1 2 3 show ?thesis by blast
qed

end
